theory Spec2Isabelle
  imports Complex_Main "HOL-Library.AList" "HOL-Library.Multiset"
begin

section \<open>The control plane of the resolver daemon (daemon/engine.c)\<close>

text \<open>
  A shallow embedding of the parts of \<^verbatim>\<open>daemon/engine.c\<close> that own the module
  registry, the Lua/JSON marshalling bridge, the worker broadcast and the engine
  lifecycle. Pointers that the source tests against \<^verbatim>\<open>NULL\<close> are options; the C
  arrays of \<^verbatim>\<open>lib/generic/array.h\<close> are lists; every call that leaves the process
  (libuv, the network layer, a plugin's teardown) is recorded, in order, in the
  ghost field \<open>trace\<close> of the engine.
\<close>

subsection \<open>Error codes\<close>

text \<open>
  \<^verbatim>\<open>kr_error\<close> and \<^verbatim>\<open>kr_ok\<close> are macros of \<^verbatim>\<open>lib/defines.h\<close>
  (\<^verbatim>\<open>#define kr_error(x) -abs(x)\<close>, \<^verbatim>\<open>#define kr_ok() 0\<close>); the errno
  constants carry their Linux values. Both files are outside the sources. No theorem
  below depends on the values beyond \<^verbatim>\<open>kr_error\<close> of each constant being negative.
\<close>

definition kr_ok :: int where
  "kr_ok = 0"

definition kr_error :: "int \<Rightarrow> int" where
  "kr_error x = - \<bar>x\<bar>"

definition ENOENT :: int where "ENOENT = 2"
definition ENOEXEC :: int where "ENOEXEC = 8"
definition ENOMEM :: int where "ENOMEM = 12"
definition EINVAL :: int where "EINVAL = 22"
definition EIDRM :: int where "EIDRM = 43"

subsection \<open>Lua values and tables\<close>

text \<open>
  A Lua value as the C API sees it through \<^verbatim>\<open>lua_type\<close>. A table is the list of its
  key/value pairs in the order \<^verbatim>\<open>lua_next\<close> enumerates them; a key occurs once and
  no value is \<open>LNil\<close>. \<open>LOther\<close> stands for every type the code does not
  inspect (function, userdata, thread). A \<^verbatim>\<open>lua_Number\<close> is only ever copied by
  the code below, so it is modelled by the real number it denotes.
\<close>

datatype lua_value =
    LNil
  | LBool bool
  | LNum real
  | LStr string
  | LTable "(lua_value \<times> lua_value) list"
  | LOther

type_synonym lua_table = "(lua_value \<times> lua_value) list"

text \<open>
  \<^verbatim>\<open>lua_rawlen\<close> on a table returns a border: an \<open>n\<close> with \<open>t[n]\<close> present (or
  \<open>n = 0\<close>) and \<open>t[n+1]\<close> absent. The model returns the least one, which is the only
  one for the sequences that the code below builds.
\<close>

fun rawlen_from :: "lua_table \<Rightarrow> nat \<Rightarrow> nat \<Rightarrow> nat" where
  "rawlen_from t n 0 = n"
| "rawlen_from t n (Suc fuel) =
     (if map_of t (LNum (real (Suc n))) = None then n else rawlen_from t (Suc n) fuel)"

definition lua_rawlen :: "lua_table \<Rightarrow> nat" where
  "lua_rawlen t = rawlen_from t 0 (length t)"

text \<open>Storing \<^verbatim>\<open>nil\<close> removes the key, as in Lua.\<close>

definition lua_rawset :: "lua_table \<Rightarrow> lua_value \<Rightarrow> lua_value \<Rightarrow> lua_table" where
  "lua_rawset t k v = (if v = LNil then AList.delete k t else AList.update k v t)"

definition lua_rawseti :: "lua_table \<Rightarrow> nat \<Rightarrow> lua_value \<Rightarrow> lua_table" where
  "lua_rawseti t i v = lua_rawset t (LNum (real i)) v"

definition lua_setfield :: "lua_table \<Rightarrow> string \<Rightarrow> lua_value \<Rightarrow> lua_table" where
  "lua_setfield t k v = lua_rawset t (LStr k) v"

text \<open>
  The Lua state, as far as the engine writes to it: the global variables. Setting a
  global to \<^verbatim>\<open>nil\<close> removes it.
\<close>

record lua_State =
  globals :: "(string \<times> lua_value) list"

definition lua_setglobal :: "string \<Rightarrow> lua_value \<Rightarrow> lua_State \<Rightarrow> lua_State" where
  "lua_setglobal k v L =
     L\<lparr>globals := (if v = LNil then AList.delete k (globals L)
                    else AList.update k v (globals L))\<rparr>"

subsection \<open>Modules and the engine\<close>

text \<open>
  \<^verbatim>\<open>struct kr_module\<close> (declared in \<^verbatim>\<open>lib/module.h\<close>): the name, whether the
  configuration entry point is set, and the property table: \<open>None\<close> for a
  \<^verbatim>\<open>NULL\<close> table, otherwise the entries before the terminator, each with its name
  and whether its callback is set.
\<close>

record kr_module =
  name :: string
  config :: bool
  props :: "(string \<times> bool) list option"

text \<open>Calls that leave the process, in the order the engine makes them.\<close>

datatype effect =
    ModuleUnload string
  | UvTimerStop nat
  | UvClose nat
  | UvStop
  | NetworkInit
  | NetworkDeinit
  | CloseFd int
  | LuaClose
  | LuaNullState

text \<open>
  \<^verbatim>\<open>struct engine\<close> (declared in \<^verbatim>\<open>daemon/engine.h\<close>). \<open>L\<close> and \<open>updater\<close>
  are pointers; \<open>updater\<close> holds the address of the timer handle.
\<close>

record engine =
  modules :: "kr_module list"
  backends :: nat
  ipc_set :: "int list"
  updater :: "nat option"
  L :: "lua_State option"
  trace :: "effect list"

definition emit :: "effect \<Rightarrow> engine \<Rightarrow> engine" where
  "emit ev e = e\<lparr>trace := trace e @ [ev]\<rparr>"

text \<open>
  A call of the Lua API on \<open>engine->L\<close>. The registry dereferences the pointer
  without a test; on a \<^verbatim>\<open>NULL\<close> state the C behaviour is undefined, which the
  model records as the event \<open>LuaNullState\<close>.
\<close>

definition on_lua :: "(lua_State \<Rightarrow> lua_State) \<Rightarrow> engine \<Rightarrow> engine" where
  "on_lua f e = (case L e of None \<Rightarrow> emit LuaNullState e | Some st \<Rightarrow> e\<lparr>L := Some (f st)\<rparr>)"

subsection \<open>The module registry\<close>

text \<open>
  \<^verbatim>\<open>module_find\<close>: the index of the first module with the name, or the length of
  the list when there is none.
\<close>

fun module_find :: "kr_module list \<Rightarrow> string \<Rightarrow> nat" where
  "module_find [] nm = 0"
| "module_find (m # ms) nm = (if name m = nm then 0 else Suc (module_find ms nm))"

text \<open>
  \<^verbatim>\<open>engine_unload\<close>: the plugin's own teardown (\<^verbatim>\<open>kr_module_unload\<close>), then
  the global named after the module is cleared (the \<^verbatim>\<open>strdup\<close> of the name is taken
  to succeed).
\<close>

definition engine_unload :: "engine \<Rightarrow> kr_module \<Rightarrow> engine" where
  "engine_unload e m = on_lua (lua_setglobal (name m) LNil) (emit (ModuleUnload (name m)) e)"

text \<open>
  Modelled from the spec: the macro \<^verbatim>\<open>array_del\<close> of \<^verbatim>\<open>lib/generic/array.h\<close>,
  which is not among the sources. The spec has it remove the entry from the list,
  "shifting later entries to close the gap".
\<close>

definition array_del :: "'a list \<Rightarrow> nat \<Rightarrow> 'a list" where
  "array_del xs i = take i xs @ drop (Suc i) xs"

definition engine_unregister :: "engine \<Rightarrow> string \<Rightarrow> int \<times> engine" where
  "engine_unregister e nm =
     (let mod_list = modules e;
          found = module_find mod_list nm
      in if found < length mod_list
         then (let e1 = engine_unload e (mod_list ! found)
               in (kr_ok, e1\<lparr>modules := array_del (modules e1) found\<rparr>))
         else (kr_error ENOENT, e))"

text \<open>
  What one call of \<^verbatim>\<open>engine_register\<close> meets outside the engine: whether
  \<^verbatim>\<open>malloc\<close> and the growth of the array in \<^verbatim>\<open>array_push\<close> succeed, and the
  two loaders \<^verbatim>\<open>kr_module_load\<close> (\<^verbatim>\<open>lib/module.c\<close>) and
  \<^verbatim>\<open>ffimodule_register_lua\<close> (\<^verbatim>\<open>daemon/ffimodule.c\<close>), which are not among the
  sources: each returns its result code and the module structure it filled in.
\<close>

record reg_env =
  malloc_ok :: bool
  kr_module_load :: "string \<Rightarrow> int \<times> kr_module"
  ffimodule_register_lua :: "string \<Rightarrow> int \<times> kr_module"
  array_push_ok :: bool

text \<open>The binary loader first; the Lua loader only when the binary one reports \<^verbatim>\<open>ENOENT\<close>.\<close>

definition load_attempts :: "reg_env \<Rightarrow> string \<Rightarrow> int \<times> kr_module" where
  "load_attempts env nm =
     (let (ret, m) = kr_module_load env nm
      in if ret = kr_error ENOENT then ffimodule_register_lua env nm else (ret, m))"

definition tolower :: "char \<Rightarrow> char" where
  "tolower c = (let n = (of_char c :: nat) in if 65 \<le> n \<and> n \<le> 90 then char_of (n + 32) else c)"

text \<open>\<^verbatim>\<open>strcasecmp(a, b) == 0\<close>.\<close>

definition strcasecmp_eq :: "string \<Rightarrow> string \<Rightarrow> bool" where
  "strcasecmp_eq a b = (map tolower a = map tolower b)"

text \<open>
  \<^verbatim>\<open>memmove(&arr[d + 1], &arr[d], sizeof(*arr) * cnt)\<close>: \<open>cnt\<close> cells starting at
  \<open>d\<close> are copied one cell up.
\<close>

definition memmove_up :: "'a list \<Rightarrow> nat \<Rightarrow> nat \<Rightarrow> 'a list" where
  "memmove_up arr d cnt = take (Suc d) arr @ take cnt (drop d arr) @ drop (Suc d + cnt) arr"

text \<open>
  \<^verbatim>\<open>register_properties\<close>: a fresh table receives one closure per entry point
  (\<^verbatim>\<open>REGISTER_MODULE_CALL\<close>) and becomes the global named after the module. The
  call of the Lua function \<^verbatim>\<open>modules_register\<close> that follows is best effort: its
  error is popped, and its effect on the Lua side is outside the sources.
\<close>

fun register_props :: "lua_table \<Rightarrow> (string \<times> bool) list \<Rightarrow> lua_table" where
  "register_props t [] = t"
| "register_props t ((pname, cb) # ps) =
     register_props (if cb then lua_setfield t pname LOther else t) ps"

definition register_properties :: "engine \<Rightarrow> kr_module \<Rightarrow> int \<times> engine" where
  "register_properties e m =
     (let t0 = [];
          t1 = (if config m then lua_setfield t0 ''config'' LOther else t0);
          t2 = register_props t1 (case props m of None \<Rightarrow> [] | Some ps \<Rightarrow> ps)
      in (kr_ok, on_lua (lua_setglobal (name m) (LTable t2)) e))"

text \<open>
  The block "Find the index of referenced module" of \<^verbatim>\<open>engine_register\<close>: the
  position defaults to the length of the list.
\<close>

definition find_reference :: "kr_module list \<Rightarrow> string option \<Rightarrow> string option \<Rightarrow> nat" where
  "find_reference mod_list precedence ref =
     (case (precedence, ref) of
        (Some p, Some r) \<Rightarrow> module_find mod_list r
      | _ \<Rightarrow> length mod_list)"

text \<open>
  The block "Evaluate precedence operator" of \<^verbatim>\<open>engine_register\<close>, on the array
  that already holds the new module in its last cell. The precedence operators of the
  source are the strings \<^verbatim>\<open>"<"\<close> (the spec's "before") and \<^verbatim>\<open>">"\<close> (the spec's
  "after").
\<close>

definition evaluate_precedence ::
  "kr_module list \<Rightarrow> kr_module \<Rightarrow> string option \<Rightarrow> nat \<Rightarrow> kr_module list" where
  "evaluate_precedence arr m precedence ref_pos =
     (case precedence of
        None \<Rightarrow> arr
      | Some p \<Rightarrow>
          (let len = length arr;
               emplacement = len;
               emplacement = (if strcasecmp_eq p ''>'' \<and> ref_pos + 1 < len
                              then ref_pos + 1 else emplacement);
               emplacement = (if strcasecmp_eq p ''<'' then ref_pos else emplacement)
           in if emplacement + 1 < len
              then (memmove_up arr emplacement (len - (emplacement + 1)))[emplacement := m]
              else arr))"

text \<open>\<^verbatim>\<open>engine_register\<close> after its argument check.\<close>

definition register_module ::
  "reg_env \<Rightarrow> engine \<Rightarrow> string \<Rightarrow> string option \<Rightarrow> string option \<Rightarrow> int \<times> engine" where
  "register_module env e0 nm precedence ref =
     (let e = snd (engine_unregister e0 nm);
          ref_pos = find_reference (modules e) precedence ref
      in if precedence \<noteq> None \<and> ref \<noteq> None \<and> ref_pos \<ge> length (modules e)
         then (kr_error EIDRM, e)
         else if \<not> malloc_ok env then (kr_error ENOMEM, e)
         else (let (ret, m) = load_attempts env nm
               in if ret \<noteq> 0 then (ret, e)
                  else if \<not> array_push_ok env then (kr_error ENOMEM, engine_unload e m)
                  else (let e' = e\<lparr>modules :=
                                    evaluate_precedence (modules e @ [m]) m precedence ref_pos\<rparr>
                        in if props m \<noteq> None \<or> config m
                           then register_properties e' m
                           else (kr_ok, e'))))"


subsection \<open>Marshalling between Lua values and JSON nodes\<close>

text \<open>
  \<^verbatim>\<open>JsonNode\<close> of the bundled \<^verbatim>\<open>ccan/json\<close>: the children of an array carry no
  key, the children of an object carry one.
\<close>

datatype json =
    JNull
  | JBool bool
  | JNumber real
  | JString string
  | JArray "json list"
  | JObject "(string \<times> json) list"

text \<open>
  The C string that a \<^verbatim>\<open>char *\<close> to these bytes denotes: it ends before the first
  NUL byte. \<^verbatim>\<open>lua_tostring\<close> hands the bytes of a Lua string to C this way, and
  \<^verbatim>\<open>lua_pushstring\<close> reads its argument this way.
\<close>

definition cstr :: "string \<Rightarrow> string" where
  "cstr s = takeWhile (\<lambda>c. c \<noteq> CHR 0x00) s"

text \<open>
  \<^verbatim>\<open>l_pack_elem\<close>. The loop over \<^verbatim>\<open>lua_next\<close> decides between array and object
  at the first pair, by the type of its key alone; \<open>pack_elements\<close> is the loop in
  array mode and \<open>pack_members\<close> the loop in object mode. In object mode the key goes
  through \<^verbatim>\<open>lua_tostring\<close>: on a number key this rewrites the key on the stack, after
  which \<^verbatim>\<open>lua_next\<close> is outside its contract, and on any other key that is not a
  string it yields \<^verbatim>\<open>NULL\<close>, which \<^verbatim>\<open>json_append_member\<close> dereferences. Both are
  the failure \<open>None\<close>. Allocation failures of the JSON library are not modelled.
\<close>

fun l_pack_elem :: "lua_value \<Rightarrow> json option"
  and pack_elements :: "(lua_value \<times> lua_value) list \<Rightarrow> json list option"
  and pack_members :: "(lua_value \<times> lua_value) list \<Rightarrow> (string \<times> json) list option" where
  "l_pack_elem (LStr s) = Some (JString (cstr s))"
| "l_pack_elem (LNum n) = Some (JNumber n)"
| "l_pack_elem (LBool b) = Some (JBool b)"
| "l_pack_elem (LTable []) = Some (JObject [])"
| "l_pack_elem (LTable ((k, v) # kvs)) =
     (case k of
        LNum n \<Rightarrow> map_option JArray (pack_elements ((k, v) # kvs))
      | _ \<Rightarrow> map_option JObject (pack_members ((k, v) # kvs)))"
| "l_pack_elem LNil = Some JNull"
| "l_pack_elem LOther = Some JNull"
| "pack_elements [] = Some []"
| "pack_elements ((k, v) # kvs) =
     (case l_pack_elem v of
        None \<Rightarrow> None
      | Some val \<Rightarrow> map_option ((#) val) (pack_elements kvs))"
| "pack_members [] = Some []"
| "pack_members ((k, v) # kvs) =
     (case l_pack_elem v of
        None \<Rightarrow> None
      | Some val \<Rightarrow>
          (case k of
             LStr s \<Rightarrow> map_option ((#) (cstr s, val)) (pack_members kvs)
           | _ \<Rightarrow> None))"

text \<open>
  \<^verbatim>\<open>l_unpack_json\<close>. A string, number or boolean is pushed as it is; anything else
  becomes a new table filled from the node's children, where a \<^verbatim>\<open>null\<close> child is
  skipped, a keyed child is stored with \<^verbatim>\<open>lua_setfield\<close> and a child without key
  at \<^verbatim>\<open>lua_rawlen + 1\<close>.
\<close>

fun l_unpack_json :: "json \<Rightarrow> lua_value"
  and unpack_elements :: "lua_table \<Rightarrow> json list \<Rightarrow> lua_table"
  and unpack_members :: "lua_table \<Rightarrow> (string \<times> json) list \<Rightarrow> lua_table" where
  "l_unpack_json (JString s) = LStr (cstr s)"
| "l_unpack_json (JNumber n) = LNum n"
| "l_unpack_json (JBool b) = LBool b"
| "l_unpack_json JNull = LTable []"
| "l_unpack_json (JArray xs) = LTable (unpack_elements [] xs)"
| "l_unpack_json (JObject ms) = LTable (unpack_members [] ms)"
| "unpack_elements t [] = t"
| "unpack_elements t (x # xs) =
     (case x of
        JNull \<Rightarrow> unpack_elements t xs
      | _ \<Rightarrow> unpack_elements (lua_rawseti t (lua_rawlen t + 1) (l_unpack_json x)) xs)"
| "unpack_members t [] = t"
| "unpack_members t ((key, x) # ms) =
     (case x of
        JNull \<Rightarrow> unpack_members t ms
      | _ \<Rightarrow> unpack_members (lua_setfield t key (l_unpack_json x)) ms)"

text \<open>
  \<^verbatim>\<open>l_pack_json\<close> serialises the packed node with \<^verbatim>\<open>json_encode\<close>; the callers
  that receive text (\<^verbatim>\<open>l_trampoline\<close>, and \<^verbatim>\<open>l_map\<close> below) decode it with
  \<^verbatim>\<open>json_decode\<close>, unpack the node, and fall back to the text itself when it does
  not decode. Both functions belong to the bundled JSON library and are parameters.
\<close>

definition l_pack_json :: "(json \<Rightarrow> string) \<Rightarrow> lua_value \<Rightarrow> string option" where
  "l_pack_json json_encode v = map_option json_encode (l_pack_elem v)"

definition unmarshal :: "(string \<Rightarrow> json option) \<Rightarrow> string \<Rightarrow> lua_value" where
  "unmarshal json_decode text =
     (case json_decode text of
        Some root_node \<Rightarrow> l_unpack_json root_node
      | None \<Rightarrow> LStr (cstr text))"

text \<open>
  A table that \<^verbatim>\<open>lua_next\<close> enumerates with the keys \<open>1, 2, \<dots>, n\<close> in this order,
  as it does for the array part of a table. For integer keys that live in the hash part
  of a table the order is not specified.
\<close>

definition array_in_order :: "lua_table \<Rightarrow> bool" where
  "array_in_order t = (map fst t = map (\<lambda>i. LNum (real (Suc i))) [0..<length t])"

fun is_LStr :: "lua_value \<Rightarrow> bool" where
  "is_LStr (LStr s) = True"
| "is_LStr _ = False"

text \<open>
  The spec's test for an array: "contiguous integer keys starting at 1", in whatever
  order \<^verbatim>\<open>lua_next\<close> yields them.
\<close>

definition spec_array_keys :: "lua_table \<Rightarrow> bool" where
  "spec_array_keys t = (set (map fst t) = (\<lambda>i. LNum (real i)) ` {1..length t})"

text \<open>
  The domain of the round-trip property, in the spec's words: a string, a number, a
  boolean, an array of such, an object of string-keyed such.
\<close>

fun spec_domain :: "lua_value \<Rightarrow> bool"
  and spec_domain_values :: "(lua_value \<times> lua_value) list \<Rightarrow> bool" where
  "spec_domain (LStr s) = True"
| "spec_domain (LNum n) = True"
| "spec_domain (LBool b) = True"
| "spec_domain (LTable t) =
     ((spec_array_keys t \<or> list_all (\<lambda>kv. is_LStr (fst kv)) t) \<and> distinct (map fst t)
        \<and> spec_domain_values t)"
| "spec_domain LNil = False"
| "spec_domain LOther = False"
| "spec_domain_values [] = True"
| "spec_domain_values ((k, v) # kvs) = (spec_domain v \<and> spec_domain_values kvs)"

text \<open>
  The same domain with two restrictions, under which the round trip does hold: every
  string, also as a key, is free of NUL bytes, and every array is enumerated in index
  order.
\<close>

definition nul_free :: "string \<Rightarrow> bool" where
  "nul_free s = (CHR 0x00 \<notin> set s)"

fun string_key :: "lua_value \<Rightarrow> bool" where
  "string_key (LStr s) = nul_free s"
| "string_key _ = False"

fun round_trip_domain :: "lua_value \<Rightarrow> bool"
  and round_trip_values :: "(lua_value \<times> lua_value) list \<Rightarrow> bool" where
  "round_trip_domain (LStr s) = nul_free s"
| "round_trip_domain (LNum n) = True"
| "round_trip_domain (LBool b) = True"
| "round_trip_domain (LTable t) =
     ((array_in_order t \<or> list_all (\<lambda>kv. string_key (fst kv)) t) \<and> distinct (map fst t)
        \<and> round_trip_values t)"
| "round_trip_domain LNil = False"
| "round_trip_domain LOther = False"
| "round_trip_values [] = True"
| "round_trip_values ((k, v) # kvs) = (round_trip_domain v \<and> round_trip_values kvs)"





subsection \<open>Command evaluation and the worker broadcast\<close>

text \<open>
  \<^verbatim>\<open>engine_cmd\<close> calls the Lua function \<^verbatim>\<open>eval_cmd\<close>, which lives in the embedded
  script \<^verbatim>\<open>sandbox.lua\<close> and is a parameter here: from the command, the raw flag
  and the state it gives the status of \<^verbatim>\<open>lua_pcall\<close>, the values left on the stack
  (the results, or the error message) and the new state.
\<close>

type_synonym evaluator =
  "string \<Rightarrow> bool \<Rightarrow> lua_State \<Rightarrow> int \<times> lua_value list \<times> lua_State"

definition engine_cmd ::
  "evaluator \<Rightarrow> lua_State option \<Rightarrow> string \<Rightarrow> bool \<Rightarrow> int \<times> lua_value list \<times> lua_State option" where
  "engine_cmd eval_cmd Lp str raw =
     (case Lp of
        None \<Rightarrow> (kr_error ENOEXEC, [], None)
      | Some st \<Rightarrow> (let (ret, pushed, st') = eval_cmd str raw st in (ret, pushed, Some st')))"

text \<open>
  What the calls on one sibling's pipe return during a broadcast: whether each
  \<^verbatim>\<open>write\<close> and the \<^verbatim>\<open>read\<close> of the length transferred all its bytes, whether
  the reply buffer could be allocated, and the reply bytes when the second
  \<^verbatim>\<open>read\<close> delivered all of them.
\<close>

record pipe_io =
  write_len_ok :: bool
  write_cmd_ok :: bool
  read_len_ok :: bool
  rbuf_ok :: bool
  read_body :: "string option"

text \<open>
  One round of the loop of \<^verbatim>\<open>l_map\<close>: the value appended for a sibling.
  \<^verbatim>\<open>json_decode\<close> belongs to the bundled JSON library and is a parameter.
\<close>

definition sibling_reply :: "(string \<Rightarrow> json option) \<Rightarrow> pipe_io \<Rightarrow> lua_value" where
  "sibling_reply json_decode io =
     (if \<not> write_len_ok io then LBool False
      else if \<not> write_cmd_ok io then LBool False
      else if read_len_ok io then
        (if \<not> rbuf_ok io then LBool False
         else (case read_body io of
                 None \<Rightarrow> LBool False
               | Some rbuf \<Rightarrow>
                   (case json_decode (cstr rbuf) of
                      Some root_node \<Rightarrow> l_unpack_json root_node
                    | None \<Rightarrow> LStr rbuf)))
      else LBool False)"

fun l_map_loop ::
  "(string \<Rightarrow> json option) \<Rightarrow> (nat \<Rightarrow> pipe_io) \<Rightarrow> lua_table \<Rightarrow> nat list \<Rightarrow> lua_table" where
  "l_map_loop json_decode pipes t [] = t"
| "l_map_loop json_decode pipes t (i # is) =
     l_map_loop json_decode pipes
       (lua_rawseti t (lua_rawlen t + 1) (sibling_reply json_decode (pipes i))) is"

text \<open>
  \<^verbatim>\<open>l_map\<close>: the command runs on the leader in raw mode, \<^verbatim>\<open>lua_settop\<close> keeps
  one value of what it left (or pads with \<^verbatim>\<open>nil\<close>), which is stored at index 1;
  then one round per entry of \<open>ipc_set\<close>, where \<open>pipes i\<close> is what the calls on
  \<open>ipc_set.at[i]\<close> return. The result is the reply table and the Lua state.
\<close>

definition l_map ::
  "evaluator \<Rightarrow> (string \<Rightarrow> json option) \<Rightarrow> (nat \<Rightarrow> pipe_io) \<Rightarrow> engine \<Rightarrow> lua_State \<Rightarrow> string
     \<Rightarrow> lua_table \<times> lua_State option" where
  "l_map eval_cmd json_decode pipes e st cmd =
     (let (ret, pushed, st') = engine_cmd eval_cmd (Some st) cmd True;
          local = (case pushed of [] \<Rightarrow> LNil | v # vs \<Rightarrow> v);
          t = lua_rawseti [] 1 local
      in (l_map_loop json_decode pipes t [0..<length (ipc_set e)], st'))"

text \<open>
  The reply set as the spec describes it: the local result first, then one entry per
  sibling in registration order.
\<close>

definition reply_set :: "lua_value \<Rightarrow> lua_value list \<Rightarrow> lua_table" where
  "reply_set local rs = zip (map (\<lambda>i. LNum (real (Suc i))) [0..<Suc (length rs)]) (local # rs)"

subsection \<open>The engine lifecycle\<close>

text \<open>
  What \<^verbatim>\<open>engine_init\<close> meets outside the engine: whether \<^verbatim>\<open>luaL_newstate\<close> and
  the allocation of the OPT record succeed, what the four registrations of the
  built-in modules meet, whether \<^verbatim>\<open>array_push\<close> on the backends succeeds, and the
  two directory names fixed at compile time.
\<close>

record init_env =
  newstate_ok :: bool
  opt_rr_ok :: bool
  builtin :: reg_env
  backends_push_ok :: bool
  moduledir :: string
  etcdir :: string

definition init_state :: "init_env \<Rightarrow> engine \<Rightarrow> int \<times> engine" where
  "init_state env e =
     (if \<not> newstate_ok env then (kr_error ENOMEM, e\<lparr>L := None\<rparr>)
      else (kr_ok,
            e\<lparr>L := Some
                (lua_setglobal ''__engine'' LOther
                (lua_setglobal ''etcdir'' (LStr (etcdir env))
                (lua_setglobal ''moduledir'' (LStr (moduledir env))
                (lua_setglobal ''map'' LOther
                (lua_setglobal ''tojson'' LOther
                (lua_setglobal ''libpath'' LOther
                (lua_setglobal ''trustanchor'' LOther
                (lua_setglobal ''user'' LOther
                (lua_setglobal ''option'' LOther
                (lua_setglobal ''verbose'' LOther
                (lua_setglobal ''hostname'' LOther
                (lua_setglobal ''quit'' LOther
                (lua_setglobal ''help'' LOther \<lparr>globals = []\<rparr>)))))))))))))\<rparr>))"

text \<open>
  \<^verbatim>\<open>init_resolver\<close>. The results of the four registrations are dropped, and the
  function returns what \<^verbatim>\<open>array_push\<close> returns: the index of the new backend, or
  \<open>-1\<close>.
\<close>

definition init_resolver :: "init_env \<Rightarrow> engine \<Rightarrow> int \<times> engine" where
  "init_resolver env e =
     (if \<not> opt_rr_ok env then (kr_error ENOMEM, e)
      else (let e1 = snd (register_module (builtin env) e ''iterate'' None None);
                e2 = snd (register_module (builtin env) e1 ''validate'' None None);
                e3 = snd (register_module (builtin env) e2 ''rrcache'' None None);
                e4 = snd (register_module (builtin env) e3 ''pktcache'' None None)
            in if backends_push_ok env
               then (int (backends e4), e4\<lparr>backends := Suc (backends e4)\<rparr>)
               else (- 1, e4)))"

text \<open>
  \<^verbatim>\<open>engine_deinit\<close> after its argument check. \<^verbatim>\<open>lua_close\<close> leaves the pointer
  \<open>L\<close> as it is. The release of the zone cut, the cache and the LRU tables touches
  nothing that is modelled.
\<close>

definition deinit_engine :: "engine \<Rightarrow> engine" where
  "deinit_engine e =
     (let e1 = emit NetworkDeinit e;
          e2 = fold (\<lambda>fd. emit (CloseFd fd)) (ipc_set e1) e1;
          e3 = fold (\<lambda>m x. engine_unload x m) (modules e2) e2;
          e4 = (if L e3 \<noteq> None then emit LuaClose e3 else e3)
      in e4\<lparr>modules := [], backends := 0, ipc_set := []\<rparr>)"

definition engine_deinit :: "engine option \<Rightarrow> engine option" where
  "engine_deinit ep = (case ep of None \<Rightarrow> None | Some e \<Rightarrow> Some (deinit_engine e))"

text \<open>
  \<^verbatim>\<open>engine_init\<close>: \<^verbatim>\<open>memset\<close> clears the structure, then the Lua state, the
  resolver and the network are set up in this order.
\<close>

definition engine_init :: "init_env \<Rightarrow> engine option \<Rightarrow> int \<times> engine option" where
  "engine_init env ep =
     (case ep of
        None \<Rightarrow> (kr_error EINVAL, None)
      | Some e \<Rightarrow>
          (let e0 = \<lparr>modules = [], backends = 0, ipc_set = [], updater = None, L = None,
                     trace = trace e\<rparr>;
               (ret, e1) = init_state env e0;
               e2 = (if ret \<noteq> 0 then deinit_engine e1 else e1);
               (ret, e3) = init_resolver env e2
           in if ret \<noteq> 0 then (ret, Some (deinit_engine e3))
              else (ret, Some (emit NetworkInit e3))))"

text \<open>\<^verbatim>\<open>engine_stop\<close>.\<close>

definition engine_stop :: "engine option \<Rightarrow> engine option" where
  "engine_stop ep =
     (case ep of
        None \<Rightarrow> None
      | Some e \<Rightarrow>
          (let e1 = (case updater e of
                       None \<Rightarrow> e
                     | Some timer \<Rightarrow> emit (UvClose timer) (emit (UvTimerStop timer) e))
           in Some (emit UvStop e1)))"

subsection \<open>Sequences of registry calls\<close>

text \<open>
  A call of \<^verbatim>\<open>engine_register\<close> (with the engine and a name, and with what this call
  meets outside) or of \<^verbatim>\<open>engine_unregister\<close>.
\<close>

datatype call =
    Register reg_env string "string option" "string option"
  | Unregister string

fun apply_call :: "call \<Rightarrow> engine \<Rightarrow> int \<times> engine" where
  "apply_call (Register env nm precedence ref) e = register_module env e nm precedence ref"
| "apply_call (Unregister nm) e = engine_unregister e nm"

fun run_calls :: "call list \<Rightarrow> engine \<Rightarrow> engine" where
  "run_calls [] e = e"
| "run_calls (c # cs) e = run_calls cs (snd (apply_call c e))"

text \<open>
  The names of the register calls that returned 0, in the order of the calls, and the
  same for the unregister calls.
\<close>

fun registered_ok :: "call list \<Rightarrow> engine \<Rightarrow> string list" where
  "registered_ok [] e = []"
| "registered_ok (Register env nm precedence ref # cs) e =
     (if fst (register_module env e nm precedence ref) = 0 then [nm] else [])
       @ registered_ok cs (snd (register_module env e nm precedence ref))"
| "registered_ok (Unregister nm # cs) e = registered_ok cs (snd (engine_unregister e nm))"

fun unregistered_ok :: "call list \<Rightarrow> engine \<Rightarrow> string list" where
  "unregistered_ok [] e = []"
| "unregistered_ok (Register env nm precedence ref # cs) e =
     unregistered_ok cs (snd (register_module env e nm precedence ref))"
| "unregistered_ok (Unregister nm # cs) e =
     (if fst (engine_unregister e nm) = 0 then [nm] else [])
       @ unregistered_ok cs (snd (engine_unregister e nm))"

fun register_names :: "call list \<Rightarrow> string list" where
  "register_names [] = []"
| "register_names (Register env nm precedence ref # cs) = nm # register_names cs"
| "register_names (Unregister nm # cs) = register_names cs"

text \<open>
  The loaders fill in the name they were asked for (as \<^verbatim>\<open>kr_module_load\<close> does
  with \<^verbatim>\<open>strdup(name)\<close>).
\<close>

fun loaders_keep_name :: "call list \<Rightarrow> bool" where
  "loaders_keep_name [] = True"
| "loaders_keep_name (Register env nm precedence ref # cs) =
     ((fst (load_attempts env nm) \<noteq> 0 \<or> name (snd (load_attempts env nm)) = nm)
        \<and> loaders_keep_name cs)"
| "loaders_keep_name (Unregister nm # cs) = loaders_keep_name cs"

subsection \<open>Concrete inputs\<close>

definition plain_module :: "string \<Rightarrow> kr_module" where
  "plain_module nm = \<lparr>name = nm, config = False, props = None\<rparr>"

text \<open>Every binary module exists and initialises.\<close>

definition loader_ok :: reg_env where
  "loader_ok =
     \<lparr>malloc_ok = True,
      kr_module_load = (\<lambda>nm. (0, plain_module nm)),
      ffimodule_register_lua = (\<lambda>nm. (kr_error ENOENT, plain_module nm)),
      array_push_ok = True\<rparr>"


definition engine_with :: "kr_module list \<Rightarrow> engine" where
  "engine_with ms =
     \<lparr>modules = ms, backends = 0, ipc_set = [], updater = None,
      L = Some \<lparr>globals = []\<rparr>, trace = []\<rparr>"

text \<open>An engine whose maintenance timer is armed; the handle lives at address 1.\<close>

definition running_engine :: engine where
  "running_engine = (engine_with [])\<lparr>updater := Some 1\<rparr>"

text \<open>\<^verbatim>\<open>luaL_newstate\<close> is out of memory; everything else succeeds.\<close>

definition init_env_no_lua :: init_env where
  "init_env_no_lua =
     \<lparr>newstate_ok = False, opt_rr_ok = True, builtin = loader_ok, backends_push_ok = True,
      moduledir = ''/usr/lib/kdns_modules'', etcdir = ''/etc/kresd''\<rparr>"

text \<open>The allocation of the OPT record fails; everything else succeeds.\<close>

definition init_env_no_opt_rr :: init_env where
  "init_env_no_opt_rr =
     \<lparr>newstate_ok = True, opt_rr_ok = False, builtin = loader_ok, backends_push_ok = True,
      moduledir = ''/usr/lib/kdns_modules'', etcdir = ''/etc/kresd''\<rparr>"

text \<open>
  The node of the spec's example, the text \<^verbatim>\<open>{"ok":true,"count":3}\<close> that a JSON
  library prints for it, and a codec that prints this node so and reads this text back.
\<close>

definition example_node :: json where
  "example_node = JObject [(''ok'', JBool True), (''count'', JNumber 3)]"

definition example_text :: string where
  "example_text =
     ''{'' @ [CHR 0x22] @ ''ok'' @ [CHR 0x22] @ '':true,'' @ [CHR 0x22] @ ''count'' @ [CHR 0x22]
       @ '':3}''"

definition example_encode :: "json \<Rightarrow> string" where
  "example_encode j = (if j = example_node then example_text else ''null'')"

definition example_decode :: "string \<Rightarrow> json option" where
  "example_decode text =
     (if text = example_text then Some example_node
      else if text = ''null'' then Some JNull else None)"

text \<open>A command that leaves no value, as \<^verbatim>\<open>print('x')\<close> does.\<close>

definition eval_nothing :: evaluator where
  "eval_nothing str raw st = (0, [], st)"

text \<open>A command that leaves one value, the number 7.\<close>

definition eval_seven :: evaluator where
  "eval_seven str raw st = (0, [LNum 7], st)"

text \<open>A sibling whose pipe takes no byte of the length prefix.\<close>

definition pipe_write_fails :: pipe_io where
  "pipe_write_fails =
     \<lparr>write_len_ok = False, write_cmd_ok = False, read_len_ok = False, rbuf_ok = False,
      read_body = None\<rparr>"

text \<open>A sibling that answers with the given bytes.\<close>

definition pipe_replies :: "string \<Rightarrow> pipe_io" where
  "pipe_replies text =
     \<lparr>write_len_ok = True, write_cmd_ok = True, read_len_ok = True, rbuf_ok = True,
      read_body = Some text\<rparr>"

definition two_siblings :: "nat \<Rightarrow> pipe_io" where
  "two_siblings i = (if i = 0 then pipe_write_fails else pipe_replies ''pong'')"

text \<open>
  The scenario of the spec: register \<open>A\<close>, register \<open>B\<close> before \<open>A\<close>, unregister
  \<open>A\<close>.
\<close>

definition scenario_calls :: "call list" where
  "scenario_calls =
     [Register loader_ok ''A'' None None,
      Register loader_ok ''B'' (Some ''<'') (Some ''A''),
      Unregister ''A'']"

section \<open>Properties\<close>

subsection \<open>The module registry\<close>

lemma module_find_le: "module_find ms nm \<le> length ms"
  by (induction ms) auto

lemma module_find_absent: "module_find ms nm = length ms \<longleftrightarrow> nm \<notin> name ` set ms"
  by (induction ms) auto

lemma engine_unregister_absent:
  "module_find (modules e) nm = length (modules e) \<Longrightarrow>
   engine_unregister e nm = (kr_error ENOENT, e)"
  by (simp add: engine_unregister_def Let_def)

lemma strcasecmp_before: "strcasecmp_eq ''<'' ''<''" "\<not> strcasecmp_eq ''<'' ''>''"
  by (simp_all add: strcasecmp_eq_def tolower_def)

lemma memmove_insert:
  assumes "i < length ms"
  shows "(memmove_up (ms @ [m]) i (length ms - i))[i := m] = take i ms @ m # drop i ms"
proof -
  have moved: "memmove_up (ms @ [m]) i (length ms - i) = take (Suc i) ms @ drop i ms"
    using assms by (simp add: memmove_up_def)
  have "take (Suc i) ms = take i ms @ [ms ! i]"
    using assms by (simp add: take_Suc_conv_app_nth)
  with assms show ?thesis
    by (simp add: moved list_update_append)
qed

lemma register_properties_modules:
  "modules (snd (register_properties e m)) = modules e"
  "fst (register_properties e m) = kr_ok"
  by (simp_all add: register_properties_def Let_def on_lua_def emit_def split: option.splits)


lemma register_module_before:
  assumes A: "module_find (modules e) A < length (modules e)"
    and B: "module_find (modules e) B = length (modules e)"
    and ok: "malloc_ok env" "array_push_ok env" "load_attempts env B = (0, m)"
  shows "fst (register_module env e B (Some ''<'') (Some A)) = kr_ok \<and>
         modules (snd (register_module env e B (Some ''<'') (Some A))) =
           take (module_find (modules e) A) (modules e)
             @ m # drop (module_find (modules e) A) (modules e)"
  using A ok
  by (simp add: register_module_def find_reference_def evaluate_precedence_def
      engine_unregister_absent[OF B] Let_def memmove_insert strcasecmp_before
      register_properties_modules split: prod.splits)



lemma register_plain:
  "module_find (modules e) nm = length (modules e) \<Longrightarrow>
   register_module loader_ok e nm None None =
     (kr_ok, e\<lparr>modules := modules e @ [plain_module nm]\<rparr>)"
  by (simp add: register_module_def find_reference_def evaluate_precedence_def
      engine_unregister_absent load_attempts_def loader_ok_def plain_module_def kr_error_def
      ENOENT_def Let_def)




subsection \<open>The engine lifecycle\<close>

text \<open>
  C4, evaluated where the claim fails. \<^verbatim>\<open>engine_init\<close> calls \<^verbatim>\<open>engine_deinit\<close>
  when \<^verbatim>\<open>init_state\<close> fails, but does not return: it goes on to
  \<^verbatim>\<open>init_resolver\<close> and \<^verbatim>\<open>network_init\<close> and returns the result of
  \<^verbatim>\<open>init_resolver\<close>. With \<^verbatim>\<open>luaL_newstate\<close> out of memory the first error is
  \<^verbatim>\<open>ENOMEM\<close>, yet the call reports success, the four built-in modules are
  registered, the network is initialised after it was torn down, and \<open>L\<close> is
  \<^verbatim>\<open>NULL\<close>.
\<close>

theorem engine_init_without_lua:
  "fst (init_state init_env_no_lua (engine_with [])) = kr_error ENOMEM \<and>
   engine_init init_env_no_lua (Some (engine_with [])) =
     (0, Some \<lparr>modules = [plain_module ''iterate'', plain_module ''validate'',
                           plain_module ''rrcache'', plain_module ''pktcache''],
               backends = 1, ipc_set = [], updater = None, L = None,
               trace = [NetworkDeinit, NetworkInit]\<rparr>)"
  by (simp add: engine_init_def init_state_def init_resolver_def deinit_engine_def
      init_env_no_lua_def engine_with_def emit_def register_plain plain_module_def
      kr_error_def ENOMEM_def)

text \<open>
  The other failure of \<^verbatim>\<open>engine_init\<close> is handled as the spec has it. When the
  Lua state is set up and the resolver then fails to allocate its OPT
  record, \<^verbatim>\<open>engine_init\<close> returns that error after tearing the engine down: the
  network layer is released and the Lua state closed, the collections are empty, and
  the network is not initialised.
\<close>

theorem engine_init_resolver_failure:
  assumes "newstate_ok env" and "\<not> opt_rr_ok env"
  shows "fst (engine_init env (Some e)) = kr_error ENOMEM \<and>
         (\<exists>e'. snd (engine_init env (Some e)) = Some e' \<and>
               modules e' = [] \<and> backends e' = 0 \<and> ipc_set e' = [] \<and>
               trace e' = trace e @ [NetworkDeinit, LuaClose])"
  using assms
  by (simp add: engine_init_def init_state_def init_resolver_def deinit_engine_def emit_def
      kr_ok_def kr_error_def ENOMEM_def Let_def)

theorem engine_init_resolver_failure_witness:
  "newstate_ok init_env_no_opt_rr \<and> \<not> opt_rr_ok init_env_no_opt_rr \<and>
   fst (engine_init init_env_no_opt_rr (Some (engine_with []))) = kr_error ENOMEM \<and>
   map_option trace (snd (engine_init init_env_no_opt_rr (Some (engine_with [])))) =
     Some [NetworkDeinit, LuaClose]"
proof -
  have h1: "newstate_ok init_env_no_opt_rr" and h2: "\<not> opt_rr_ok init_env_no_opt_rr"
    by (simp_all add: init_env_no_opt_rr_def)
  from engine_init_resolver_failure[OF h1 h2, of "engine_with []"]
  have "fst (engine_init init_env_no_opt_rr (Some (engine_with []))) = kr_error ENOMEM \<and>
        map_option trace (snd (engine_init init_env_no_opt_rr (Some (engine_with [])))) =
          Some [NetworkDeinit, LuaClose]"
    by (auto simp: engine_with_def)
  with h1 h2 show ?thesis
    by simp
qed

text \<open>
  C7, evaluated where the claim fails. \<^verbatim>\<open>engine_stop\<close> closes the timer handle but
  leaves \<open>updater\<close> pointing at it, so a second call stops and closes the same handle
  again and requests the halt again: it is not a no-op.
\<close>

theorem engine_stop_twice:
  "map_option trace (engine_stop (Some running_engine)) =
     Some [UvTimerStop 1, UvClose 1, UvStop] \<and>
   map_option trace (engine_stop (engine_stop (Some running_engine))) =
     Some [UvTimerStop 1, UvClose 1, UvStop, UvTimerStop 1, UvClose 1, UvStop] \<and>
   engine_stop (engine_stop (Some running_engine)) \<noteq> engine_stop (Some running_engine)"
  by (simp add: engine_stop_def running_engine_def engine_with_def emit_def)

subsection \<open>Command evaluation\<close>

text \<open>
  C10. With no Lua state (a \<^verbatim>\<open>NULL\<close> handle), \<^verbatim>\<open>engine_cmd\<close> returns the error
  \<^verbatim>\<open>kr_error(ENOEXEC)\<close> for every command and raw flag, whatever the evaluator
  would do: nothing is evaluated, nothing is left on a stack, and the handle stays
  \<^verbatim>\<open>NULL\<close>.
\<close>

theorem engine_cmd_null_state:
  "engine_cmd eval_cmd None str raw = (kr_error ENOEXEC, [], None) \<and> kr_error ENOEXEC < 0"
  by (simp add: engine_cmd_def kr_error_def ENOEXEC_def)

subsection \<open>Marshalling\<close>

lemma pack_elements_nonempty: "pack_elements (kv # kvs) \<noteq> Some []"
  by (cases kv) (simp split: option.splits)

text \<open>
  C9. The empty table is marshalled to the empty object; no value at all is marshalled
  to the empty array; so the empty JSON array, once unmarshalled, is marshalled back as
  the empty object.
\<close>

theorem empty_table_packs_to_object:
  "l_pack_elem (LTable []) = Some (JObject []) \<and>
   l_pack_elem v \<noteq> Some (JArray []) \<and>
   l_pack_elem (l_unpack_json (JArray [])) = Some (JObject [])"
proof -
  have "l_pack_elem v \<noteq> Some (JArray [])"
  proof (cases v)
    case (LTable t)
    show ?thesis
    proof (cases t)
      case Nil
      with LTable show ?thesis by simp
    next
      case (Cons kv kvs)
      obtain k x where kv: "kv = (k, x)" by (cases kv)
      show ?thesis
        using pack_elements_nonempty[of "(k, x)" kvs]
        unfolding LTable Cons kv by (cases k) auto
    qed
  qed simp_all
  then show ?thesis by simp
qed

lemma update_fresh: "k \<notin> fst ` set al \<Longrightarrow> AList.update k v al = al @ [(k, v)]"
  by (induction al) auto

lemma array_in_order_keys:
  "array_in_order t \<Longrightarrow> fst ` set t = (\<lambda>i. LNum (real (Suc i))) ` {0..<length t}"
proof -
  assume "array_in_order t"
  then have "set (map fst t) = set (map (\<lambda>i. LNum (real (Suc i))) [0..<length t])"
    by (simp add: array_in_order_def)
  then show ?thesis by simp
qed

lemma array_in_order_lookup:
  "array_in_order t \<Longrightarrow> (map_of t (LNum (real (Suc k))) = None) = (length t \<le> k)"
  by (auto simp: map_of_eq_None_iff array_in_order_keys simp del: of_nat_Suc)

lemma rawlen_from_in_order:
  "array_in_order t \<Longrightarrow> k \<le> length t \<Longrightarrow> rawlen_from t k fuel = min (length t) (k + fuel)"
  by (induction fuel arbitrary: k) (auto simp: array_in_order_lookup simp del: of_nat_Suc)

lemma lua_rawlen_in_order: "array_in_order t \<Longrightarrow> lua_rawlen t = length t"
  by (simp add: lua_rawlen_def rawlen_from_in_order)

lemma array_in_order_append:
  "array_in_order t \<Longrightarrow> array_in_order (t @ [(LNum (real (Suc (length t))), v)])"
  by (simp add: array_in_order_def del: of_nat_Suc)

lemma lua_rawseti_append:
  assumes "array_in_order t" and "v \<noteq> LNil"
  shows "lua_rawseti t (Suc (lua_rawlen t)) v = t @ [(LNum (real (Suc (length t))), v)]"
proof -
  have "LNum (real (Suc (length t))) \<notin> fst ` set t"
    using assms(1) by (auto simp: array_in_order_keys simp del: of_nat_Suc)
  then show ?thesis
    using assms
    by (simp add: lua_rawseti_def lua_rawset_def lua_rawlen_in_order update_fresh
        del: of_nat_Suc)
qed

lemma l_unpack_json_not_nil: "l_unpack_json x \<noteq> LNil"
  by (cases x) simp_all

lemma unpack_elements_in_order:
  "JNull \<notin> set js \<Longrightarrow> array_in_order t \<Longrightarrow>
   unpack_elements t js =
     t @ zip (map (\<lambda>i. LNum (real (Suc i))) [length t..<length t + length js])
             (map l_unpack_json js)"
proof (induction js arbitrary: t)
  case Nil
  then show ?case by simp
next
  case (Cons x xs)
  let ?t = "t @ [(LNum (real (Suc (length t))), l_unpack_json x)]"
  have step: "unpack_elements t (x # xs) = unpack_elements ?t xs"
    using Cons.prems
    by (cases x) (simp_all add: lua_rawseti_append l_unpack_json_not_nil del: of_nat_Suc)
  have "unpack_elements ?t xs =
          ?t @ zip (map (\<lambda>i. LNum (real (Suc i))) [length ?t..<length ?t + length xs])
                   (map l_unpack_json xs)"
    using Cons.prems by (intro Cons.IH array_in_order_append) simp_all
  moreover have "[length t..<length t + length (x # xs)] =
                   length t # [length ?t..<length ?t + length xs]"
    by (simp add: upt_conv_Cons del: upt_Suc)
  ultimately show ?case
    unfolding step by (simp del: of_nat_Suc upt_Suc)
qed

lemma unpack_members_fresh:
  "JNull \<notin> snd ` set ms \<Longrightarrow> distinct (map fst ms) \<Longrightarrow>
   LStr ` fst ` set ms \<inter> fst ` set t = {} \<Longrightarrow>
   unpack_members t ms = t @ map (\<lambda>(k, j). (LStr k, l_unpack_json j)) ms"
proof (induction ms arbitrary: t)
  case Nil
  then show ?case by simp
next
  case (Cons m ms)
  obtain k x where m: "m = (k, x)" by (cases m)
  let ?t = "t @ [(LStr k, l_unpack_json x)]"
  have fresh: "LStr k \<notin> fst ` set t"
    using Cons.prems(3) by (auto simp: m)
  have step: "unpack_members t (m # ms) = unpack_members ?t ms"
    using Cons.prems(1) fresh
    by (cases x) (simp_all add: m lua_setfield_def lua_rawset_def update_fresh l_unpack_json_not_nil)
  have "unpack_members ?t ms = ?t @ map (\<lambda>(k, j). (LStr k, l_unpack_json j)) ms"
    using Cons.prems by (intro Cons.IH) (auto simp: m)
  then show ?case
    unfolding step by (simp add: m)
qed


lemma cstr_nul_free: "nul_free s \<Longrightarrow> cstr s = s"
  by (auto simp: cstr_def nul_free_def takeWhile_eq_all_conv)

lemma round_trip_values_iff:
  "round_trip_values kvs \<longleftrightarrow> (\<forall>v \<in> snd ` set kvs. round_trip_domain v)"
  by (induction kvs) auto

lemma pack_elements_round_trip:
  assumes "\<forall>v \<in> snd ` set kvs. \<exists>j. l_pack_elem v = Some j \<and> l_unpack_json j = v \<and> j \<noteq> JNull"
  shows "\<exists>js. pack_elements kvs = Some js \<and> map l_unpack_json js = map snd kvs \<and> JNull \<notin> set js"
  using assms
proof (induction kvs)
  case Nil
  then show ?case by simp
next
  case (Cons kv kvs)
  obtain k v where kv: "kv = (k, v)" by (cases kv)
  from Cons.prems obtain j where j: "l_pack_elem v = Some j" "l_unpack_json j = v" "j \<noteq> JNull"
    by (auto simp: kv)
  from Cons obtain js where js: "pack_elements kvs = Some js"
      "map l_unpack_json js = map snd kvs" "JNull \<notin> set js"
    by auto
  from j js show ?case
    by (auto simp: kv)
qed

lemma pack_members_round_trip:
  assumes "\<forall>v \<in> snd ` set kvs. \<exists>j. l_pack_elem v = Some j \<and> l_unpack_json j = v \<and> j \<noteq> JNull"
    and "\<forall>k \<in> fst ` set kvs. string_key k"
  shows "\<exists>ms. pack_members kvs = Some ms \<and>
              map (\<lambda>(k, j). (LStr k, l_unpack_json j)) ms = kvs \<and> JNull \<notin> snd ` set ms"
  using assms
proof (induction kvs)
  case Nil
  then show ?case by simp
next
  case (Cons kv kvs)
  obtain k v where kv: "kv = (k, v)" by (cases kv)
  from Cons.prems(2) obtain s where k: "k = LStr s" "nul_free s"
    by (cases k) (auto simp: kv)
  from Cons.prems obtain j where j: "l_pack_elem v = Some j" "l_unpack_json j = v" "j \<noteq> JNull"
    by (auto simp: kv)
  from Cons obtain ms where ms: "pack_members kvs = Some ms"
      "map (\<lambda>(k, j). (LStr k, l_unpack_json j)) ms = kvs" "JNull \<notin> snd ` set ms"
    by auto
  from j ms k show ?case
    by (auto simp: kv cstr_nul_free)
qed

lemma table_round_trip:
  assumes vals: "\<forall>v \<in> snd ` set t. \<exists>j. l_pack_elem v = Some j \<and> l_unpack_json j = v \<and> j \<noteq> JNull"
    and keys: "array_in_order t \<or> list_all (\<lambda>kv. string_key (fst kv)) t"
    and dist: "distinct (map fst t)"
  shows "\<exists>j. l_pack_elem (LTable t) = Some j \<and> l_unpack_json j = LTable t \<and> j \<noteq> JNull"
proof (cases t)
  case Nil
  then show ?thesis by simp
next
  case (Cons kv kvs)
  obtain k v where kv: "kv = (k, v)" by (cases kv)
  show ?thesis
  proof (cases "array_in_order t")
    case True
    then have k: "k = LNum 1"
      by (simp add: array_in_order_def Cons kv upt_conv_Cons del: upt_Suc)
    from pack_elements_round_trip[OF vals] obtain js where js:
      "pack_elements t = Some js" "map l_unpack_json js = map snd t" "JNull \<notin> set js"
      by blast
    have len: "length js = length t"
      using js(2) by (metis length_map)
    have "array_in_order []"
      by (simp add: array_in_order_def)
    then have "unpack_elements [] js =
            zip (map (\<lambda>i. LNum (real (Suc i))) [0..<length js]) (map l_unpack_json js)"
      using unpack_elements_in_order[OF js(3), of "[]"] by simp
    also have "\<dots> = zip (map fst t) (map snd t)"
      using True by (simp add: js(2) len array_in_order_def)
    also have "\<dots> = t"
      by (simp add: zip_map_fst_snd)
    finally have "l_unpack_json (JArray js) = LTable t"
      by simp
    moreover have "l_pack_elem (LTable t) = Some (JArray js)"
      using js(1) by (simp add: Cons kv k)
    ultimately show ?thesis by simp
  next
    case False
    with keys have str: "\<forall>k \<in> fst ` set t. string_key k"
      by (auto simp: list_all_iff)
    then obtain s where k: "k = LStr s"
      by (cases k) (auto simp: Cons kv)
    from pack_members_round_trip[OF vals str] obtain ms where ms:
      "pack_members t = Some ms" "map (\<lambda>(k, j). (LStr k, l_unpack_json j)) ms = t"
      "JNull \<notin> snd ` set ms"
      by blast
    have "map fst t = map (LStr \<circ> fst) ms"
      unfolding ms(2)[symmetric] by (simp add: comp_def case_prod_unfold)
    with dist have "distinct (map fst ms)"
      by (metis distinct_map map_map)
    then have "unpack_members [] ms = t"
      using unpack_members_fresh[OF ms(3), of "[]"] ms(2) by simp
    then have "l_unpack_json (JObject ms) = LTable t"
      by simp
    moreover have "l_pack_elem (LTable t) = Some (JObject ms)"
      using ms(1) by (simp add: Cons kv k)
    ultimately show ?thesis by simp
  qed
qed

lemma round_trip_not_null:
  "round_trip_domain v \<longrightarrow> (\<exists>j. l_pack_elem v = Some j \<and> l_unpack_json j = v \<and> j \<noteq> JNull)"
proof (induction v)
  case (LTable t)
  show ?case
  proof
    assume dom: "round_trip_domain (LTable t)"
    have "\<forall>v \<in> snd ` set t. \<exists>j. l_pack_elem v = Some j \<and> l_unpack_json j = v \<and> j \<noteq> JNull"
    proof
      fix v assume v: "v \<in> snd ` set t"
      then obtain kv where kv: "kv \<in> set t" "v = snd kv" by blast
      from dom v have "round_trip_domain v"
        by (auto simp: round_trip_values_iff)
      moreover have "v \<in> Basic_BNFs.snds kv"
        using kv(2) by (cases kv) simp
      ultimately show "\<exists>j. l_pack_elem v = Some j \<and> l_unpack_json j = v \<and> j \<noteq> JNull"
        using LTable.IH[OF kv(1)] by blast
    qed
    with dom show "\<exists>j. l_pack_elem (LTable t) = Some j \<and> l_unpack_json j = LTable t \<and> j \<noteq> JNull"
      by (intro table_round_trip) simp_all
  qed
qed (simp_all add: cstr_nul_free)

text \<open>
  C5, as the claim states it, fails, in two ways. A Lua string may hold NUL bytes, and
  \<^verbatim>\<open>lua_tostring\<close> hands \<^verbatim>\<open>json_mkstring\<close> a C string, which ends at the first
  one: the string \<open>a\<close>, NUL, \<open>b\<close> is packed as the node \<open>"a"\<close>, and whatever text
  stands for that node, unpacking it gives the string \<open>a\<close>. And an array whose keys
  \<^verbatim>\<open>lua_next\<close> yields out of index order (as it may for \<^verbatim>\<open>{[2]='b', [1]='a'}\<close>,
  whose keys live in the hash part) is packed in that order and unpacked with new
  indices: the value under the key 1 was \<open>a\<close> and comes back as \<open>b\<close>.
\<close>

theorem marshal_round_trip_counterexample:
  "spec_domain (LStr [CHR ''a'', CHR 0x00, CHR ''b'']) \<and>
   l_pack_elem (LStr [CHR ''a'', CHR 0x00, CHR ''b'']) = Some (JString ''a'') \<and>
   l_unpack_json (JString ''a'') = LStr ''a'' \<and>
   LStr ''a'' \<noteq> LStr [CHR ''a'', CHR 0x00, CHR ''b''] \<and>
   spec_domain (LTable [(LNum 2, LStr ''b''), (LNum 1, LStr ''a'')]) \<and>
   l_pack_elem (LTable [(LNum 2, LStr ''b''), (LNum 1, LStr ''a'')]) =
     Some (JArray [JString ''b'', JString ''a'']) \<and>
   l_unpack_json (JArray [JString ''b'', JString ''a'']) =
     LTable [(LNum 1, LStr ''b''), (LNum 2, LStr ''a'')] \<and>
   map_of [(LNum 2, LStr ''b''), (LNum 1, LStr ''a'')] (LNum 1) = Some (LStr ''a'') \<and>
   map_of [(LNum 1, LStr ''b''), (LNum 2, LStr ''a'')] (LNum 1) = Some (LStr ''b'')"
proof -
  have "{1..2::nat} = {1, 2}"
    by auto
  then have "spec_array_keys [(LNum 2, LStr ''b''), (LNum 1, LStr ''a'')]"
    by (auto simp: spec_array_keys_def)
  moreover have "l_unpack_json (JArray [JString ''b'', JString ''a'']) =
                   LTable [(LNum 1, LStr ''b''), (LNum 2, LStr ''a'')]"
    by (simp add: cstr_def lua_rawseti_def lua_rawset_def lua_rawlen_def)
  ultimately show ?thesis
    by (simp add: cstr_def)
qed

text \<open>
  On the restricted domain, packing yields a node and unpacking that node yields the
  value again.
\<close>

lemma marshal_round_trip_nodes:
  assumes "round_trip_domain v"
  shows "\<exists>j. l_pack_elem v = Some j \<and> l_unpack_json j = v"
  using assms round_trip_not_null by blast

text \<open>
  C5, amended. Take a value of the restricted domain whose strings, also as keys, are
  free of NUL bytes and whose arrays are enumerated in index order, and a JSON library
  that decodes the text it encoded for the packed node of the value to that node. Then
  marshalling the value yields a text, and unmarshalling that text yields the value
  again.
\<close>

theorem marshal_round_trip:
  assumes "round_trip_domain v"
    and "\<And>j. l_pack_elem v = Some j \<Longrightarrow> json_decode (json_encode j) = Some j"
  shows "\<exists>text. l_pack_json json_encode v = Some text \<and> unmarshal json_decode text = v"
proof -
  from assms(1) obtain j where j: "l_pack_elem v = Some j" "l_unpack_json j = v"
    using marshal_round_trip_nodes by blast
  from j(1) have "json_decode (json_encode j) = Some j"
    by (rule assms(2))
  with j have "l_pack_json json_encode v = Some (json_encode j)"
    and "unmarshal json_decode (json_encode j) = v"
    by (simp_all add: l_pack_json_def unmarshal_def)
  then show ?thesis by blast
qed

theorem marshal_round_trip_witness:
  "round_trip_domain (LTable [(LStr ''ok'', LBool True), (LStr ''count'', LNum 3)]) \<and>
   l_pack_elem (LTable [(LStr ''ok'', LBool True), (LStr ''count'', LNum 3)]) = Some example_node \<and>
   example_decode (example_encode example_node) = Some example_node \<and>
   l_pack_json example_encode (LTable [(LStr ''ok'', LBool True), (LStr ''count'', LNum 3)]) =
     Some example_text \<and>
   unmarshal example_decode example_text =
     LTable [(LStr ''ok'', LBool True), (LStr ''count'', LNum 3)]"
proof -
  let ?v = "LTable [(LStr ''ok'', LBool True), (LStr ''count'', LNum 3)]"
  have dom: "round_trip_domain ?v"
    by (simp add: nul_free_def)
  have packed: "l_pack_elem ?v = Some example_node"
    by (simp add: cstr_def example_node_def)
  have codec: "example_decode (example_encode example_node) = Some example_node"
    by (simp add: example_decode_def example_encode_def)
  have codec_on: "example_decode (example_encode j) = Some j" if "l_pack_elem ?v = Some j" for j
    using that packed codec by simp
  have printed: "l_pack_json example_encode ?v = Some example_text"
    unfolding l_pack_json_def packed by (simp add: example_encode_def)
  from marshal_round_trip[OF dom codec_on]
  obtain t where "l_pack_json example_encode ?v = Some t" "unmarshal example_decode t = ?v"
    by blast
  with printed have "unmarshal example_decode example_text = ?v"
    by simp
  with dom packed codec printed show ?thesis
    by simp
qed







subsection \<open>The worker broadcast\<close>

lemma sibling_reply_not_nil: "sibling_reply json_decode io \<noteq> LNil"
  by (simp add: sibling_reply_def l_unpack_json_not_nil split: option.splits)

lemma sibling_reply_failed:
  "\<not> write_len_ok io \<or> \<not> write_cmd_ok io \<or> \<not> read_len_ok io \<or> \<not> rbuf_ok io \<or> read_body io = None
   \<Longrightarrow> sibling_reply json_decode io = LBool False"
  by (auto simp: sibling_reply_def)

lemma l_map_loop_in_order:
  "array_in_order t \<Longrightarrow>
   l_map_loop json_decode pipes t is =
     t @ zip (map (\<lambda>i. LNum (real (Suc i))) [length t..<length t + length is])
             (map (\<lambda>i. sibling_reply json_decode (pipes i)) is)"
proof (induction "is" arbitrary: t)
  case Nil
  then show ?case by simp
next
  case (Cons i "is")
  let ?t = "t @ [(LNum (real (Suc (length t))), sibling_reply json_decode (pipes i))]"
  have step: "l_map_loop json_decode pipes t (i # is) = l_map_loop json_decode pipes ?t is"
    using Cons.prems by (simp add: lua_rawseti_append sibling_reply_not_nil del: of_nat_Suc)
  have "l_map_loop json_decode pipes ?t is =
          ?t @ zip (map (\<lambda>i. LNum (real (Suc i))) [length ?t..<length ?t + length is])
                   (map (\<lambda>i. sibling_reply json_decode (pipes i)) is)"
    using Cons.prems by (intro Cons.IH array_in_order_append)
  moreover have "[length t..<length t + length (i # is)] =
                   length t # [length ?t..<length ?t + length is]"
    by (simp add: upt_conv_Cons del: upt_Suc)
  ultimately show ?case
    unfolding step by (simp del: of_nat_Suc upt_Suc)
qed

text \<open>
  When the command leaves a value on the leader, the reply table is the reply set of
  the spec: that value at index 1, then one entry per sibling in the order of
  \<open>ipc_set\<close>, each computed from that sibling's pipe alone, and \<open>false\<close> for a
  sibling with a failed write or read.
\<close>

lemma l_map_reply_set:
  assumes "eval_cmd cmd True st = (ret, v # vs, st')" and "v \<noteq> LNil"
  shows "fst (l_map eval_cmd json_decode pipes e st cmd) =
           reply_set v (map (\<lambda>i. sibling_reply json_decode (pipes i)) [0..<length (ipc_set e)])"
proof -
  have first: "lua_rawseti [] (Suc 0) v = [(LNum 1, v)]"
    using assms(2) by (simp add: lua_rawseti_def lua_rawset_def)
  have ordered: "array_in_order [(LNum 1, v)]"
    by (simp add: array_in_order_def)
  have "[0..<Suc (length (ipc_set e))] = 0 # [1..<1 + length (ipc_set e)]"
    by (simp add: upt_conv_Cons del: upt_Suc)
  then show ?thesis
    using assms(1) l_map_loop_in_order[OF ordered, of json_decode pipes "[0..<length (ipc_set e)]"]
    by (simp add: l_map_def engine_cmd_def first reply_set_def del: upt_Suc)
qed

text \<open>
  C2, evaluated where the claim fails. The command leaves no value on the leader, so
  \<^verbatim>\<open>nil\<close> is stored at index 1 and the table stays empty; \<^verbatim>\<open>lua_rawlen\<close> is then
  0 and the first sibling's entry lands at index 1. With two siblings, the first with a
  failed write and the second answering \<open>pong\<close>, the failure marker sits in the slot
  reserved for the local result and the table has two entries, where the reply set of
  the spec has three.
\<close>

theorem l_map_without_local_value:
  "fst (l_map eval_nothing (\<lambda>text. None) two_siblings ((engine_with [])\<lparr>ipc_set := [3, 4]\<rparr>)
          \<lparr>globals = []\<rparr> ''print(1)'') =
     [(LNum 1, LBool False), (LNum 2, LStr ''pong'')] \<and>
   reply_set LNil [LBool False, LStr ''pong''] =
     [(LNum 1, LNil), (LNum 2, LBool False), (LNum 3, LStr ''pong'')]"
  by (simp add: l_map_def engine_cmd_def eval_nothing_def two_siblings_def pipe_write_fails_def
      pipe_replies_def sibling_reply_def engine_with_def lua_rawseti_def lua_rawset_def
      lua_rawlen_def reply_set_def cstr_def upt_conv_Cons)

lemma reply_set_slot:
  assumes "i < length rs"
  shows "map_of (reply_set v rs) (LNum (real (i + 2))) = Some (rs ! i)"
proof -
  let ?keys = "map (\<lambda>i. LNum (real (Suc i))) [0..<Suc (length rs)]"
  have inj: "inj_on (\<lambda>i. LNum (real (Suc i))) (set [0..<Suc (length rs)])"
    by (auto simp: inj_on_def)
  have "distinct ?keys"
    by (simp only: distinct_map inj distinct_upt simp_thms)
  moreover have "length ?keys = length (v # rs)"
    by simp
  moreover have "Suc i < length (v # rs)"
    using assms by simp
  ultimately have "map_of (zip ?keys (v # rs)) (?keys ! Suc i) = Some ((v # rs) ! Suc i)"
    by (intro map_of_zip_nth) simp_all
  moreover have "?keys ! Suc i = LNum (real (i + 2))"
    using assms by (simp del: upt_Suc of_nat_Suc add: nth_map_upt)
  ultimately show ?thesis
    by (simp add: reply_set_def del: upt_Suc)
qed

text \<open>
  When the command leaves a value on the leader, the broadcast isolates failures:
  the reply table is the reply set of the spec, with the local value at index 1 and the
  entry of the sibling \<open>i\<close> (counted from 0) at index \<open>i + 2\<close>; that entry depends
  on the sibling's own pipe alone and is \<open>false\<close> when a write to it or a read from it
  failed.
\<close>

theorem l_map_isolates_failures:
  assumes "eval_cmd cmd True st = (ret, v # vs, st')" and "v \<noteq> LNil"
  shows "fst (l_map eval_cmd json_decode pipes e st cmd) =
           reply_set v (map (\<lambda>i. sibling_reply json_decode (pipes i)) [0..<length (ipc_set e)]) \<and>
         map_of (fst (l_map eval_cmd json_decode pipes e st cmd)) (LNum 1) = Some v \<and>
         (\<forall>i < length (ipc_set e).
            map_of (fst (l_map eval_cmd json_decode pipes e st cmd)) (LNum (real (i + 2))) =
              Some (sibling_reply json_decode (pipes i)) \<and>
            (\<not> write_len_ok (pipes i) \<or> \<not> write_cmd_ok (pipes i) \<or> \<not> read_len_ok (pipes i)
               \<or> \<not> rbuf_ok (pipes i) \<or> read_body (pipes i) = None
             \<longrightarrow> sibling_reply json_decode (pipes i) = LBool False))"
proof -
  let ?rs = "map (\<lambda>i. sibling_reply json_decode (pipes i)) [0..<length (ipc_set e)]"
  have eq: "fst (l_map eval_cmd json_decode pipes e st cmd) = reply_set v ?rs"
    using assms by (rule l_map_reply_set)
  have local: "map_of (reply_set v ?rs) (LNum 1) = Some v"
    by (simp add: reply_set_def upt_conv_Cons del: upt_Suc)
  have slot: "map_of (reply_set v ?rs) (LNum (real (i + 2))) = Some (sibling_reply json_decode (pipes i))"
    if "i < length (ipc_set e)" for i
    using reply_set_slot[of i ?rs v] that by simp
  from eq local slot sibling_reply_failed show ?thesis
    by (simp del: of_nat_Suc of_nat_add)
qed

theorem l_map_isolates_failures_witness:
  "eval_seven ''7'' True \<lparr>globals = []\<rparr> = (0, [LNum 7], \<lparr>globals = []\<rparr>) \<and>
   \<not> write_len_ok (two_siblings 0) \<and>
   fst (l_map eval_seven (\<lambda>text. None) two_siblings ((engine_with [])\<lparr>ipc_set := [3, 4]\<rparr>)
          \<lparr>globals = []\<rparr> ''7'') =
     [(LNum 1, LNum 7), (LNum 2, LBool False), (LNum 3, LStr ''pong'')]"
proof -
  have ev: "eval_seven ''7'' True \<lparr>globals = []\<rparr> = (0, LNum 7 # [], \<lparr>globals = []\<rparr>)"
    by (simp add: eval_seven_def)
  have v: "LNum 7 \<noteq> LNil"
    by simp
  have failing: "\<not> write_len_ok (two_siblings 0)"
    by (simp add: two_siblings_def pipe_write_fails_def)
  from l_map_isolates_failures[where eval_cmd = eval_seven and cmd = "''7''"
      and st = "\<lparr>globals = []\<rparr>" and json_decode = "\<lambda>text. None" and pipes = two_siblings
      and e = "(engine_with [])\<lparr>ipc_set := [3, 4]\<rparr>", OF ev v]
  have "fst (l_map eval_seven (\<lambda>text. None) two_siblings ((engine_with [])\<lparr>ipc_set := [3, 4]\<rparr>)
          \<lparr>globals = []\<rparr> ''7'') =
     [(LNum 1, LNum 7), (LNum 2, LBool False), (LNum 3, LStr ''pong'')]"
    by (simp add: reply_set_def two_siblings_def pipe_write_fails_def pipe_replies_def
        sibling_reply_def engine_with_def cstr_def upt_conv_Cons)
  with ev failing show ?thesis
    by simp
qed

subsection \<open>Sequences of registry calls\<close>

lemma array_del_names:
  "module_find ms nm < length ms \<Longrightarrow>
   map name (array_del ms (module_find ms nm)) = remove1 nm (map name ms)"
  by (induction ms) (auto simp: array_del_def)

lemma engine_unload_modules: "modules (engine_unload e m) = modules e"
  by (simp add: engine_unload_def on_lua_def emit_def split: option.splits)

lemma engine_unregister_names:
  "map name (modules (snd (engine_unregister e nm))) = remove1 nm (map name (modules e))"
proof (cases "module_find (modules e) nm < length (modules e)")
  case True
  then show ?thesis
    by (simp add: engine_unregister_def Let_def engine_unload_modules array_del_names)
next
  case False
  then have absent: "module_find (modules e) nm = length (modules e)"
    using module_find_le[of "modules e" nm] by simp
  then have "nm \<notin> set (map name (modules e))"
    by (simp add: module_find_absent)
  then show ?thesis
    by (simp add: engine_unregister_absent[OF absent] remove1_idem)
qed

lemma engine_unregister_ret:
  "fst (engine_unregister e nm) = 0 \<longleftrightarrow> nm \<in> name ` set (modules e)"
proof (cases "module_find (modules e) nm < length (modules e)")
  case True
  then have "nm \<in> name ` set (modules e)"
    using module_find_absent[of "modules e" nm] by auto
  with True show ?thesis
    by (simp add: engine_unregister_def Let_def kr_ok_def)
next
  case False
  then have absent: "module_find (modules e) nm = length (modules e)"
    using module_find_le[of "modules e" nm] by simp
  then show ?thesis
    using module_find_absent[of "modules e" nm]
    by (simp add: engine_unregister_absent[OF absent] kr_error_def ENOENT_def)
qed

lemma evaluate_precedence_insert:
  "\<exists>i \<le> length ms.
     evaluate_precedence (ms @ [m]) m precedence ref_pos = take i ms @ m # drop i ms"
proof (cases precedence)
  case None
  then have "evaluate_precedence (ms @ [m]) m precedence ref_pos =
               take (length ms) ms @ m # drop (length ms) ms"
    by (simp add: evaluate_precedence_def)
  then show ?thesis by blast
next
  case (Some p)
  define len where "len = length (ms @ [m])"
  define emp where "emp =
    (if strcasecmp_eq p ''<'' then ref_pos
     else if strcasecmp_eq p ''>'' \<and> ref_pos + 1 < len then ref_pos + 1 else len)"
  have arr: "evaluate_precedence (ms @ [m]) m precedence ref_pos =
               (if emp + 1 < len
                then (memmove_up (ms @ [m]) emp (len - (emp + 1)))[emp := m]
                else ms @ [m])"
    by (simp add: evaluate_precedence_def Some Let_def emp_def len_def)
  show ?thesis
  proof (cases "emp + 1 < len")
    case True
    then have lt: "emp < length ms"
      by (simp add: len_def)
    then have "len - (emp + 1) = length ms - emp"
      by (simp add: len_def)
    with True lt have "evaluate_precedence (ms @ [m]) m precedence ref_pos =
                         take emp ms @ m # drop emp ms"
      by (simp add: arr memmove_insert)
    with lt show ?thesis
      by (intro exI[of _ emp]) simp
  next
    case False
    then have "evaluate_precedence (ms @ [m]) m precedence ref_pos =
                 take (length ms) ms @ m # drop (length ms) ms"
      by (simp add: arr)
    then show ?thesis by blast
  qed
qed

text \<open>
  A registration either fails and leaves the list as unregistering the name left it, or
  returns 0 and has put the loaded module somewhere into that list.
\<close>

lemma register_module_cases:
  fixes env e nm precedence ref
  defines "ms \<equiv> modules (snd (engine_unregister e nm))"
    and "res \<equiv> register_module env e nm precedence ref"
  shows "(fst res \<noteq> 0 \<and> modules (snd res) = ms) \<or>
         (fst res = 0 \<and> fst (load_attempts env nm) = 0 \<and>
          (\<exists>i \<le> length ms. modules (snd res) = take i ms @ snd (load_attempts env nm) # drop i ms))"
proof -
  obtain ret m where load: "load_attempts env nm = (ret, m)"
    by (cases "load_attempts env nm")
  define ref_pos where "ref_pos = find_reference ms precedence ref"
  show ?thesis
  proof (cases "(precedence \<noteq> None \<and> ref \<noteq> None \<and> ref_pos \<ge> length ms)
                 \<or> \<not> malloc_ok env \<or> ret \<noteq> 0 \<or> \<not> array_push_ok env")
    case True
    then have "fst res \<noteq> 0 \<and> modules (snd res) = ms"
      unfolding res_def ms_def ref_pos_def
      by (auto simp: register_module_def Let_def load engine_unload_modules kr_error_def
          EIDRM_def ENOMEM_def)
    then show ?thesis by simp
  next
    case False
    then have "fst res = 0 \<and> modules (snd res) = evaluate_precedence (ms @ [m]) m precedence ref_pos"
      unfolding res_def ms_def ref_pos_def
      by (auto simp: register_module_def Let_def load register_properties_modules kr_ok_def)
    moreover from False have "ret = 0"
      by simp
    ultimately show ?thesis
      using evaluate_precedence_insert[of ms m precedence ref_pos] by (simp add: load)
  qed
qed

lemma mset_insert_at: "mset (take i xs @ y # drop i xs) = add_mset y (mset xs)"
proof -
  have "mset (take i xs) + mset (drop i xs) = mset (take i xs @ drop i xs)"
    by (simp only: mset_append)
  also have "\<dots> = mset xs"
    by (simp only: append_take_drop_id)
  finally show ?thesis
    by simp
qed

lemma distinct_insert_at:
  assumes "distinct xs" and "y \<notin> set xs"
  shows "distinct (take i xs @ y # drop i xs)"
proof -
  have "mset (take i xs @ y # drop i xs) = mset (y # xs)"
    by (simp only: mset_insert_at mset.simps)
  moreover have "distinct (y # xs)"
    using assms by simp
  ultimately show ?thesis
    by (metis mset_eq_imp_distinct_iff)
qed

text \<open>
  The names after a registration: the names that unregistering left, and the new name
  once more exactly when the call returned 0.
\<close>

lemma register_module_names:
  assumes keep: "fst (load_attempts env nm) \<noteq> 0 \<or> name (snd (load_attempts env nm)) = nm"
  shows "(fst (register_module env e nm precedence ref) \<noteq> 0 \<and>
          map name (modules (snd (register_module env e nm precedence ref))) =
            remove1 nm (map name (modules e))) \<or>
         (fst (register_module env e nm precedence ref) = 0 \<and>
          (\<exists>i. map name (modules (snd (register_module env e nm precedence ref))) =
                 take i (remove1 nm (map name (modules e))) @ nm
                   # drop i (remove1 nm (map name (modules e)))))"
proof -
  let ?ms = "modules (snd (engine_unregister e nm))"
  let ?res = "register_module env e nm precedence ref"
  have names: "map name ?ms = remove1 nm (map name (modules e))"
    by (rule engine_unregister_names)
  from register_module_cases[of env e nm precedence ref]
  consider (failed) "fst ?res \<noteq> 0" "modules (snd ?res) = ?ms"
    | (loaded) i where "fst ?res = 0" "fst (load_attempts env nm) = 0"
        "modules (snd ?res) = take i ?ms @ snd (load_attempts env nm) # drop i ?ms"
    by blast
  then show ?thesis
  proof cases
    case failed
    then show ?thesis by (simp add: names)
  next
    case loaded
    from keep loaded(2) have "name (snd (load_attempts env nm)) = nm"
      by simp
    then have "map name (modules (snd ?res)) =
                 take i (map name ?ms) @ nm # drop i (map name ?ms)"
      by (simp add: loaded(3) take_map drop_map)
    with loaded(1) show ?thesis
      unfolding names by blast
  qed
qed

lemma loaders_keep_name_tail: "loaders_keep_name (c # cs) \<Longrightarrow> loaders_keep_name cs"
  by (cases c) simp_all

lemma loaders_keep_name_take: "loaders_keep_name cs \<Longrightarrow> loaders_keep_name (take k cs)"
proof (induction cs arbitrary: k)
  case Nil
  then show ?case by simp
next
  case (Cons c cs)
  show ?case
  proof (cases k)
    case 0
    then show ?thesis by simp
  next
    case (Suc k')
    from Cons.prems have "loaders_keep_name cs"
      by (rule loaders_keep_name_tail)
    then have "loaders_keep_name (take k' cs)"
      by (rule Cons.IH)
    with Cons.prems show ?thesis
      by (cases c) (simp_all add: Suc)
  qed
qed

lemma apply_call_distinct:
  assumes "distinct (map name (modules e))" and "loaders_keep_name (c # cs)"
  shows "distinct (map name (modules (snd (apply_call c e))))"
proof (cases c)
  case (Unregister nm)
  with assms(1) show ?thesis
    by (simp add: engine_unregister_names)
next
  case (Register env nm precedence ref)
  then have keep: "fst (load_attempts env nm) \<noteq> 0 \<or> name (snd (load_attempts env nm)) = nm"
    using assms(2) by simp
  have rest: "distinct (remove1 nm (map name (modules e)))"
    "nm \<notin> set (remove1 nm (map name (modules e)))"
    using assms(1) by simp_all
  from register_module_names[OF keep, of e precedence ref] rest
  have "distinct (map name (modules (snd (register_module env e nm precedence ref))))"
    by (auto simp: distinct_insert_at simp del: distinct_append)
  then show ?thesis
    by (simp add: Register)
qed

lemma run_calls_distinct:
  "distinct (map name (modules e)) \<Longrightarrow> loaders_keep_name cs \<Longrightarrow>
   distinct (map name (modules (run_calls cs e)))"
proof (induction cs arbitrary: e)
  case Nil
  then show ?case by simp
next
  case (Cons c cs)
  from Cons.prems have "distinct (map name (modules (snd (apply_call c e))))"
    by (rule apply_call_distinct)
  moreover from Cons.prems(2) have "loaders_keep_name cs"
    by (rule loaders_keep_name_tail)
  ultimately show ?case
    by (simp add: Cons.IH)
qed

lemma run_calls_append: "run_calls (cs @ ds) e = run_calls ds (run_calls cs e)"
  by (induction cs arbitrary: e) simp_all

text \<open>
  The bookkeeping of a sequence whose registered names are new: what is registered at
  the end, together with what was unregistered with success, is what was registered at
  the start together with what was registered with success.
\<close>

lemma run_calls_balance:
  "distinct (map name (modules e)) \<Longrightarrow> distinct (register_names cs) \<Longrightarrow>
   set (register_names cs) \<inter> set (map name (modules e)) = {} \<Longrightarrow> loaders_keep_name cs \<Longrightarrow>
   mset (map name (modules (run_calls cs e))) + mset (unregistered_ok cs e) =
     mset (map name (modules e)) + mset (registered_ok cs e)"
proof (induction cs arbitrary: e)
  case Nil
  then show ?case by simp
next
  case (Cons c cs)
  let ?e1 = "snd (apply_call c e)"
  have d1: "distinct (map name (modules ?e1))"
    using Cons.prems(1,4) by (rule apply_call_distinct)
  have k1: "loaders_keep_name cs"
    using Cons.prems(4) by (rule loaders_keep_name_tail)
  show ?case
  proof (cases c)
    case (Unregister nm)
    have names1: "map name (modules ?e1) = remove1 nm (map name (modules e))"
      by (simp add: Unregister engine_unregister_names)
    have sub: "set (map name (modules ?e1)) \<subseteq> set (map name (modules e))"
      unfolding names1 by (rule set_remove1_subset)
    have "set (register_names cs) \<inter> set (map name (modules e)) = {}"
      using Cons.prems(3) by (simp add: Unregister)
    with sub have "set (register_names cs) \<inter> set (map name (modules ?e1)) = {}"
      by blast
    with Cons.prems(2) d1 k1
    have IH: "mset (map name (modules (run_calls cs ?e1))) + mset (unregistered_ok cs ?e1) =
                mset (map name (modules ?e1)) + mset (registered_ok cs ?e1)"
      by (intro Cons.IH) (simp_all add: Unregister)
    show ?thesis
    proof (cases "nm \<in> name ` set (modules e)")
      case True
      then have "mset (map name (modules ?e1)) + {#nm#} = mset (map name (modules e))"
        unfolding names1 by simp
      with IH True show ?thesis
        using engine_unregister_ret[of e nm]
        by (simp add: Unregister del: mset_map)
    next
      case False
      then have "mset (map name (modules ?e1)) = mset (map name (modules e))"
        unfolding names1 by (simp add: remove1_idem)
      with IH False show ?thesis
        using engine_unregister_ret[of e nm] by (simp add: Unregister del: mset_map)
    qed
  next
    case (Register env nm precedence ref)
    have keep: "fst (load_attempts env nm) \<noteq> 0 \<or> name (snd (load_attempts env nm)) = nm"
      using Cons.prems(4) by (simp add: Register)
    have new: "nm \<notin> set (map name (modules e))" "nm \<notin> set (register_names cs)"
      using Cons.prems(2,3) by (auto simp: Register)
    then have same: "remove1 nm (map name (modules e)) = map name (modules e)"
      by (simp add: remove1_idem)
    let ?ret = "fst (register_module env e nm precedence ref)"
    have names1: "mset (map name (modules ?e1)) =
                    mset (map name (modules e)) + (if ?ret = 0 then {#nm#} else {#})"
      using register_module_names[OF keep, of e precedence ref]
      unfolding same by (auto simp: Register mset_insert_at simp del: mset_append mset_map)
    have "set (map name (modules ?e1)) = set_mset (mset (map name (modules ?e1)))"
      by (simp only: set_mset_mset)
    also have "\<dots> = set_mset (mset (map name (modules e)) + (if ?ret = 0 then {#nm#} else {#}))"
      by (simp only: names1)
    also have "\<dots> \<subseteq> insert nm (set (map name (modules e)))"
      by auto
    finally have "set (map name (modules ?e1)) \<subseteq> insert nm (set (map name (modules e)))" .
    with Cons.prems(3) new(2)
    have "set (register_names cs) \<inter> set (map name (modules ?e1)) = {}"
      by (auto simp: Register)
    with Cons.prems(2) d1 k1
    have IH: "mset (map name (modules (run_calls cs ?e1))) + mset (unregistered_ok cs ?e1) =
                mset (map name (modules ?e1)) + mset (registered_ok cs ?e1)"
      by (intro Cons.IH) (simp_all add: Register)
    from IH names1 show ?thesis
      by (simp add: Register del: mset_map)
  qed
qed


text \<open>
  C8. Take any finite sequence of register and unregister calls, run from an empty
  registry, in which no name is registered twice and every loader names the module it
  loads as it was asked. Then the names in the registry are pairwise distinct after
  every call; at the end they are, as a multiset, the names of the registrations that
  returned 0 minus the names of the unregistrations that returned 0 (an unregistration
  that found nothing removes nothing); and right after a call that unregisters a name,
  no module of that name is left.
\<close>

theorem registry_names_balance:
  assumes "modules e = []" and "distinct (register_names cs)" and "loaders_keep_name cs"
  shows "(\<forall>k \<le> length cs. distinct (map name (modules (run_calls (take k cs) e)))) \<and>
         mset (map name (modules (run_calls cs e))) =
           mset (registered_ok cs e) - mset (unregistered_ok cs e) \<and>
         (\<forall>k < length cs. \<forall>nm. cs ! k = Unregister nm \<longrightarrow>
            nm \<notin> name ` set (modules (run_calls (take (Suc k) cs) e)))"
proof -
  have start: "distinct (map name (modules e))"
    using assms(1) by simp
  have unique: "distinct (map name (modules (run_calls (take k cs) e)))" for k
    using start loaders_keep_name_take[OF assms(3)] by (rule run_calls_distinct)
  have "mset (map name (modules (run_calls cs e))) + mset (unregistered_ok cs e) =
          mset (map name (modules e)) + mset (registered_ok cs e)"
    using start assms(2) _ assms(3) by (rule run_calls_balance) (simp add: assms(1))
  then have "mset (map name (modules (run_calls cs e))) + mset (unregistered_ok cs e) =
               mset (registered_ok cs e)"
    by (simp add: assms(1))
  then have balance: "mset (map name (modules (run_calls cs e))) =
                        mset (registered_ok cs e) - mset (unregistered_ok cs e)"
    by (metis add_diff_cancel_right')
  have gone: "nm \<notin> name ` set (modules (run_calls (take (Suc k) cs) e))"
    if k: "k < length cs" and call: "cs ! k = Unregister nm" for k nm
  proof -
    let ?e = "run_calls (take k cs) e"
    have "take (Suc k) cs = take k cs @ [Unregister nm]"
      using k call by (simp add: take_Suc_conv_app_nth)
    then have "map name (modules (run_calls (take (Suc k) cs) e)) =
                 remove1 nm (map name (modules ?e))"
      by (simp add: run_calls_append engine_unregister_names)
    moreover have "nm \<notin> set (remove1 nm (map name (modules ?e)))"
      using unique[of k] by simp
    ultimately show ?thesis
      by (metis set_map)
  qed
  from unique balance gone show ?thesis
    by blast
qed

theorem registry_names_balance_witness:
  "modules (engine_with []) = [] \<and>
   distinct (register_names scenario_calls) \<and>
   loaders_keep_name scenario_calls \<and>
   registered_ok scenario_calls (engine_with []) = [''A'', ''B''] \<and>
   unregistered_ok scenario_calls (engine_with []) = [''A''] \<and>
   distinct (map name (modules (run_calls scenario_calls (engine_with [])))) \<and>
   mset (map name (modules (run_calls scenario_calls (engine_with [])))) = {#''B''#}"
proof -
  have h1: "modules (engine_with []) = []"
    by (simp add: engine_with_def)
  have h2: "distinct (register_names scenario_calls)"
    by (simp add: scenario_calls_def)
  have load: "load_attempts loader_ok nm = (0, plain_module nm)" for nm
    by (simp add: load_attempts_def loader_ok_def kr_error_def ENOENT_def)
  have h3: "loaders_keep_name scenario_calls"
    by (simp add: scenario_calls_def load plain_module_def)
  have first: "register_module loader_ok (engine_with []) ''A'' None None =
                 (kr_ok, engine_with [plain_module ''A''])"
    by (simp add: register_plain engine_with_def)
  have find_A: "module_find (modules (engine_with [plain_module ''A''])) ''A''
                  < length (modules (engine_with [plain_module ''A'']))"
    and new_B: "module_find (modules (engine_with [plain_module ''A''])) ''B''
                  = length (modules (engine_with [plain_module ''A'']))"
    by (simp_all add: engine_with_def plain_module_def)
  have ok: "malloc_ok loader_ok" "array_push_ok loader_ok"
    by (simp_all add: loader_ok_def)
  have second: "fst (register_module loader_ok (engine_with [plain_module ''A'']) ''B''
                       (Some ''<'') (Some ''A'')) = kr_ok"
    "modules (snd (register_module loader_ok (engine_with [plain_module ''A'']) ''B''
                       (Some ''<'') (Some ''A''))) = [plain_module ''B'', plain_module ''A'']"
    using register_module_before[OF find_A new_B ok load]
    by (simp_all add: engine_with_def plain_module_def)
  have third: "fst (engine_unregister e ''A'') = 0"
    if "modules e = [plain_module ''B'', plain_module ''A'']" for e
    using that by (simp add: engine_unregister_ret plain_module_def)
  have reg: "registered_ok scenario_calls (engine_with []) = [''A'', ''B'']"
    by (simp add: scenario_calls_def first second kr_ok_def)
  have unreg: "unregistered_ok scenario_calls (engine_with []) = [''A'']"
    by (simp add: scenario_calls_def first second third)
  from registry_names_balance[OF h1 h2 h3]
  have "distinct (map name (modules (run_calls (take (length scenario_calls) scenario_calls)
                                       (engine_with []))))"
    and "mset (map name (modules (run_calls scenario_calls (engine_with [])))) =
           mset (registered_ok scenario_calls (engine_with []))
             - mset (unregistered_ok scenario_calls (engine_with []))"
    by blast+
  then have "distinct (map name (modules (run_calls scenario_calls (engine_with []))))"
    and "mset (map name (modules (run_calls scenario_calls (engine_with [])))) = {#''B''#}"
    by (simp_all add: reg unreg del: mset_map)
  with h1 h2 h3 reg unreg show ?thesis
    by blast
qed

end
